theory Spec2Isabelle
  imports Complex_Main "HOL-Library.Sublist"
begin

section \<open>Python string operations used by the sources\<close>

text \<open>
  Strings are lists of 8-bit characters. The operations below are the ones the sources
  call on \<open>str\<close> values; they agree with Python on ASCII text.
\<close>

text \<open>\<open>sub in s\<close>: \<open>sub\<close> occurs in \<open>s\<close> as a contiguous substring.\<close>

fun py_in :: "string \<Rightarrow> string \<Rightarrow> bool" where
  "py_in sub [] = (sub = [])"
| "py_in sub (c # cs) = (prefix sub (c # cs) \<or> py_in sub cs)"

text \<open>
  \<open>s.split(sep)\<close> for a non-empty separator (every call in the sources passes a
  literal): \<open>piece\<close> is the text read since the last separator.
\<close>

function py_split_from :: "string \<Rightarrow> string \<Rightarrow> string \<Rightarrow> string list" where
  "py_split_from sep piece [] = [piece]"
| "py_split_from sep piece (c # cs) =
     (if sep \<noteq> [] \<and> prefix sep (c # cs)
      then piece # py_split_from sep [] (drop (length sep) (c # cs))
      else py_split_from sep (piece @ [c]) cs)"
  by pat_completeness auto
termination
  by (relation "measure (\<lambda>(sep, piece, s). length s)") auto

definition py_split :: "string \<Rightarrow> string \<Rightarrow> string list" where
  "py_split sep s = py_split_from sep [] s"

text \<open>\<open>s.startswith(p)\<close>.\<close>

definition startswith :: "string \<Rightarrow> string \<Rightarrow> bool" where
  "startswith s p = prefix p s"

text \<open>
  \<open>urllib.parse.unquote\<close>, on bytes: every \<open>%XX\<close> with two hexadecimal digits becomes
  the character with that code, and any other \<open>%\<close> stays. (Python then reads the
  decoded bytes as UTF-8; here they stay bytes.)
\<close>

definition hex_digit :: "char \<Rightarrow> nat option" where
  "hex_digit c = map_of (zip ''0123456789abcdefABCDEF''
       [0, 1, 2, 3, 4, 5, 6, 7, 8, 9, 10, 11, 12, 13, 14, 15, 10, 11, 12, 13, 14, 15]) c"

fun unquote :: "string \<Rightarrow> string" where
  "unquote (c # h # l # rest) =
     (if c = CHR ''%'' then
        (case (hex_digit h, hex_digit l) of
           (Some a, Some b) \<Rightarrow> char_of (16 * a + b) # unquote rest
         | _ \<Rightarrow> c # unquote (h # l # rest))
      else c # unquote (h # l # rest))"
| "unquote s = s"

section \<open>DorkSearchThread (pagodo\_gui\_pyqt6.py)\<close>

record DorkSearchThread =
  dorks :: "string list"
  domain :: string
  proxies :: "string list"
  max_results :: int
  min_delay :: int
  max_delay :: int
  running :: bool

text \<open>\<open>DorkSearchThread.__init__\<close>: stores its arguments, checks nothing.\<close>

definition init :: "string list \<Rightarrow> string \<Rightarrow> string list \<Rightarrow> int \<Rightarrow> int \<Rightarrow> int \<Rightarrow> DorkSearchThread" where
  "init ds dm ps mr mn mx =
     \<lparr>dorks = ds, domain = dm, proxies = ps, max_results = mr,
      min_delay = mn, max_delay = mx, running = True\<rparr>"

text \<open>\<open>DorkSearchThread.stop\<close>.\<close>

definition stop :: "DorkSearchThread \<Rightarrow> DorkSearchThread" where
  "stop t = t\<lparr>running := False\<rparr>"

subsection \<open>google\_search\<close>

text \<open>
  What \<open>requests.get\<close> does for one call: it raises (timeout, connection error), or it
  returns a response. A response is its status code and, for its body, the \<open>href\<close>
  values of the anchors that \<open>BeautifulSoup(...).find_all("a")\<close> yields, in document
  order (\<open>link.get("href", "")\<close>, so an anchor without \<open>href\<close> gives the empty
  string).
\<close>

datatype fetch_outcome = Timeout | ConnectionError | Response int "string list"

text \<open>
  The loop over the anchors. \<open>urls\<close> is the list built so far. An exception inside the
  \<open>try\<close> would end the function with the URLs collected so far; the index \<open>[1]\<close> is
  guarded by the substring test, so that branch is never taken (lemma
  \<open>py_split_second\<close>).
\<close>

fun collect_urls :: "int \<Rightarrow> string list \<Rightarrow> string list \<Rightarrow> string list" where
  "collect_urls mr urls [] = urls"
| "collect_urls mr urls (href # links) =
     (if py_in ''/url?q='' href then
        (case py_split ''/url?q='' href of
           _ # target # _ \<Rightarrow>
             (let url = unquote (hd (py_split ''&'' target)) in
              if startswith url ''http'' then
                (let urls' = urls @ [url] in
                 if int (length urls') \<ge> mr then urls'
                 else collect_urls mr urls' links)
              else collect_urls mr urls links)
         | _ \<Rightarrow> urls)
      else collect_urls mr urls links)"

text \<open>
  \<open>proxies_dict\<close> of the request: \<open>None\<close> unless a non-empty proxy was passed.
\<close>

definition proxies_dict :: "string option \<Rightarrow> (string \<times> string) list option" where
  "proxies_dict proxy =
     (case proxy of
        None \<Rightarrow> None
      | Some p \<Rightarrow> if p = [] then None else Some [(''http'', p), (''https'', p)])"

definition google_search :: "string \<Rightarrow> string option \<Rightarrow> int \<Rightarrow> fetch_outcome \<Rightarrow> string list" where
  "google_search query proxy mr outcome =
     (case outcome of
        Timeout \<Rightarrow> []
      | ConnectionError \<Rightarrow> []
      | Response status_code links \<Rightarrow>
          if status_code = 200 then collect_urls mr [] links else [])"

subsection \<open>run\<close>

text \<open>
  What the thread does that others can observe: the four signals, the call of
  \<open>google_search\<close> (one outbound request, with the query and the proxy passed) and the
  call of \<open>time.sleep\<close>.
\<close>

datatype event =
    Progress string nat nat
  | Search string "string option"
  | Result string "string list" nat
  | Sleep real
  | Finished
  | Error string

text \<open>
  What the rest of the world does during a run, by loop iteration: whether the GUI
  thread has called \<open>stop()\<close> since the previous check of \<open>self.running\<close> (for
  iteration 0: since construction), what the request of that iteration meets, and the
  value in \<open>[0, 1)\<close> that \<open>random.random()\<close> returns.
\<close>

record world =
  stop_called :: "nat \<Rightarrow> bool"
  response :: "nat \<Rightarrow> fetch_outcome"
  random :: "nat \<Rightarrow> real"

text \<open>\<open>random.uniform(a, b)\<close> is \<open>a + (b - a) * random()\<close>, here in exact arithmetic.\<close>

definition uniform :: "int \<Rightarrow> int \<Rightarrow> real \<Rightarrow> real" where
  "uniform a b r = real_of_int a + (real_of_int b - real_of_int a) * r"

text \<open>
  The loop of \<open>run\<close> from iteration \<open>idx\<close> on, over the dorks not yet visited.
  \<open>time.sleep\<close> raises \<open>ValueError\<close> on a negative argument, the one exception the
  body can raise; the handler of \<open>run\<close> turns it into the \<open>error\<close> signal.
\<close>

fun run_loop :: "world \<Rightarrow> DorkSearchThread \<Rightarrow> nat \<Rightarrow> nat \<Rightarrow> nat \<Rightarrow> string list \<Rightarrow> event list" where
  "run_loop w t total_dorks proxy_index idx [] = [Finished]"
| "run_loop w t total_dorks proxy_index idx (dork # rest) =
     (let t = (if stop_called w idx then stop t else t) in
      if \<not> running t then [Finished]
      else
        (let query = (if domain t \<noteq> [] then dork @ '' site:'' @ domain t else dork);
             proxy = (if proxies t \<noteq> []
                      then Some (proxies t ! (proxy_index mod length (proxies t)))
                      else None);
             proxy_index = (if proxies t \<noteq> [] then proxy_index + 1 else proxy_index);
             urls = google_search query proxy (max_results t) (response w idx);
             d = uniform (min_delay t) (max_delay t) (random w idx)
         in [Progress (''Searching: '' @ dork) (idx + 1) total_dorks,
             Search query proxy,
             Result dork urls (length urls),
             Sleep d]
            @ (if d < 0 then [Error ''Search error: sleep length must be non-negative'']
               else run_loop w t total_dorks proxy_index (idx + 1) rest)))"

definition run :: "world \<Rightarrow> DorkSearchThread \<Rightarrow> event list" where
  "run w t = run_loop w t (length (dorks t)) 0 0 (dorks t)"

text \<open>Projections of a trace.\<close>

fun searches :: "event list \<Rightarrow> (string \<times> string option) list" where
  "searches [] = []"
| "searches (Search q p # es) = (q, p) # searches es"
| "searches (e # es) = searches es"

fun results :: "event list \<Rightarrow> (string \<times> string list \<times> nat) list" where
  "results [] = []"
| "results (Result d us n # es) = (d, us, n) # results es"
| "results (e # es) = results es"

fun sleeps :: "event list \<Rightarrow> real list" where
  "sleeps [] = []"
| "sleeps (Sleep d # es) = d # sleeps es"
| "sleeps (e # es) = sleeps es"

text \<open>
  The events of one pass through the loop body, for the dork at position \<open>idx\<close> when
  the proxy cursor stands at \<open>proxy_index\<close>; used to state what a trace looks like.
\<close>

definition delay_of :: "world \<Rightarrow> DorkSearchThread \<Rightarrow> nat \<Rightarrow> real" where
  "delay_of w t idx = uniform (min_delay t) (max_delay t) (random w idx)"

definition query_of :: "DorkSearchThread \<Rightarrow> string \<Rightarrow> string" where
  "query_of t dork = (if domain t \<noteq> [] then dork @ '' site:'' @ domain t else dork)"

definition proxy_at :: "DorkSearchThread \<Rightarrow> nat \<Rightarrow> string option" where
  "proxy_at t proxy_index =
     (if proxies t \<noteq> [] then Some (proxies t ! (proxy_index mod length (proxies t)))
      else None)"

definition urls_at :: "world \<Rightarrow> DorkSearchThread \<Rightarrow> nat \<Rightarrow> nat \<Rightarrow> string \<Rightarrow> string list" where
  "urls_at w t proxy_index idx dork =
     google_search (query_of t dork) (proxy_at t proxy_index) (max_results t) (response w idx)"

definition body :: "world \<Rightarrow> DorkSearchThread \<Rightarrow> nat \<Rightarrow> nat \<Rightarrow> nat \<Rightarrow> string \<Rightarrow> event list" where
  "body w t total_dorks proxy_index idx dork =
     [Progress (''Searching: '' @ dork) (idx + 1) total_dorks,
      Search (query_of t dork) (proxy_at t proxy_index),
      Result dork (urls_at w t proxy_index idx dork)
        (length (urls_at w t proxy_index idx dork)),
      Sleep (delay_of w t idx)]"

section \<open>ParameterExtractor (pagodo\_gui\_pyqt6.py)\<close>

subsection \<open>The library functions it calls\<close>



















subsection \<open>extract\_parameters and is\_database\_url\<close>

text \<open>A value of \<open>flat_params\<close>: the single string, or the list.\<close>

datatype param_value = Scalar string | Multi "string list"






section \<open>PagodoGUI (pagodo\_gui\_pyqt6.py)\<close>

text \<open>
  The fields of the window that the handlers below read or write: the three lists of
  \<open>__init__\<close>, the items of the list widget \<open>db_urls_list\<close>, and the values of the
  input widgets. The spin boxes are created with the ranges 1 to 1000 (results), 1 to 60
  (minimum delay) and 1 to 120 (maximum delay).
\<close>

record PagodoGUI =
  gui_dorks :: "string list"
  search_results :: "(string \<times> string \<times> (string \<times> param_value) list) list"
  database_urls :: "string list"
  db_urls_list :: "string list"
  domain_input :: string
  enable_proxy_check :: bool
  proxy_text :: string
  max_results_spin :: int
  min_delay_spin :: int
  max_delay_spin :: int

definition spin_ranges :: "PagodoGUI \<Rightarrow> bool" where
  "spin_ranges g =
     (1 \<le> max_results_spin g \<and> max_results_spin g \<le> 1000
      \<and> 1 \<le> min_delay_spin g \<and> min_delay_spin g \<le> 60
      \<and> 1 \<le> max_delay_spin g \<and> max_delay_spin g \<le> 120)"

subsection \<open>on\_search\_result and filter\_database\_urls\<close>





subsection \<open>start\_search\<close>

text \<open>\<open>s.strip()\<close>: ASCII white space taken off both ends.\<close>

definition is_space :: "char \<Rightarrow> bool" where
  "is_space c = (c \<in> {CHR 0x09, CHR 0x0A, CHR 0x0B, CHR 0x0C, CHR 0x0D,
                       CHR 0x1C, CHR 0x1D, CHR 0x1E, CHR 0x1F, CHR 0x20})"

definition py_strip :: "string \<Rightarrow> string" where
  "py_strip s = rev (dropWhile is_space (rev (dropWhile is_space s)))"

text \<open>
  What a click on the start button leads to: a message box and nothing else, or a
  thread that is constructed and started.
\<close>

datatype search_start = Warned string string | Started DorkSearchThread

definition start_search :: "PagodoGUI \<Rightarrow> PagodoGUI \<times> search_start" where
  "start_search g =
     (if gui_dorks g = [] then (g, Warned ''No Dorks'' ''Please fetch or load dorks first!'')
      else
        (let dm = py_strip (domain_input g);
             ps = (if enable_proxy_check g then
                     (let ptext = py_strip (proxy_text g)
                      in if ptext \<noteq> []
                         then map py_strip
                                (filter (\<lambda>proxy. py_strip proxy \<noteq> [])
                                   (py_split [CHR 0x0A] ptext))
                         else [])
                   else []);
             g = g\<lparr>search_results := []\<rparr>
         in (g, Started (init (gui_dorks g) dm ps (max_results_spin g)
                           (min_delay_spin g) (max_delay_spin g)))))"

section \<open>PagodoGUI.start\_search (pagodo\_gui.py)\<close>

text \<open>
  The other front end hands the search to the \<open>Pagodo\<close> class. \<open>start_search\<close> reads
  whether a task is running, whether the selected dork file exists, and the widgets;
  the two output paths are the values \<open>_clean_output_path\<close> returns. Its delay boxes
  hold decimal numbers.
\<close>

record PagodoConfig =
  google_dorks_file :: string
  cfg_domain :: string
  cfg_max_results :: int
  cfg_proxies :: string
  save_json_path :: "string option"
  save_urls_path :: "string option"
  cfg_min_delay :: real
  cfg_max_delay :: real
  disable_verify_ssl :: bool
  verbosity :: int

record PagodoGUI5 =
  thread_running :: bool
  dork_selector :: string
  dork_file_exists :: bool
  domain_input5 :: string
  max_results_spin5 :: int
  proxies_input :: string
  clean_json_path :: "string option"
  clean_urls_path :: "string option"
  min_delay_spin5 :: real
  max_delay_spin5 :: real
  disable_ssl_checkbox :: bool
  verbosity_spin :: int

datatype search_start5 =
    Information string string
  | Warning string string
  | Launched PagodoConfig

definition start_search5 :: "PagodoGUI5 \<Rightarrow> search_start5" where
  "start_search5 g =
     (if thread_running g
      then Information ''Task in progress'' ''Please wait for the current task to finish.''
      else if \<not> dork_file_exists g
      then Warning ''Invalid dork file''
             ''Please select a valid dork file before running pagodo.''
      else if min_delay_spin5 g > max_delay_spin5 g
      then Warning ''Invalid delays''
             ''Minimum delay must be less than or equal to the maximum delay.''
      else Launched
             \<lparr>google_dorks_file = dork_selector g,
              cfg_domain = py_strip (domain_input5 g),
              cfg_max_results = max_results_spin5 g,
              cfg_proxies = py_strip (proxies_input g),
              save_json_path = clean_json_path g,
              save_urls_path = clean_urls_path g,
              cfg_min_delay = min_delay_spin5 g,
              cfg_max_delay = max_delay_spin5 g,
              disable_verify_ssl = disable_ssl_checkbox g,
              verbosity = verbosity_spin g\<rparr>)"

section \<open>Words of the specification, and sample runs\<close>

text \<open>A transport failure: the request timed out, the connection failed, or the status
  is outside 200 to 299.\<close>

definition transport_failure :: "fetch_outcome \<Rightarrow> bool" where
  "transport_failure outcome =
     (case outcome of
        Timeout \<Rightarrow> True
      | ConnectionError \<Rightarrow> True
      | Response status_code links \<Rightarrow> status_code < 200 \<or> 299 < status_code)"

text \<open>An absolute HTTP(S) URL begins with one of the two scheme prefixes.\<close>

definition absolute_http_url :: "string \<Rightarrow> bool" where
  "absolute_http_url u = (prefix ''http://'' u \<or> prefix ''https://'' u)"


text \<open>A thread over five dorks with a pool of three proxies, and two worlds: one in
  which nobody presses stop and the second request times out, and one in which stop is
  pressed while the second query is handled.\<close>

definition five_dorks :: DorkSearchThread where
  "five_dorks =
     init [''inurl:a'', ''inurl:b'', ''inurl:c'', ''inurl:d'', ''inurl:e'']
       ''example.com'' [''proxy0'', ''proxy1'', ''proxy2''] 10 2 5"

definition quiet_world :: world where
  "quiet_world =
     \<lparr>stop_called = (\<lambda>k. False),
      response = (\<lambda>k. if k = 1 then Timeout
                      else Response 200 [''/url?q=http://example.com/view.php%3Fid%3D5&sa=U'']),
      random = (\<lambda>k. 1 / 2)\<rparr>"

definition stop_world :: world where
  "stop_world = quiet_world\<lparr>stop_called := (\<lambda>k. k = 2)\<rparr>"

definition sample_page :: fetch_outcome where
  "sample_page =
     Response 200
       [''/search?q=next'', ''/url?q=http://a.example/x%3Fid%3D1&sa=U'',
        ''/url?q=ftp://b.example/&sa=U'', ''/url?q=https://c.example/&sa=U'',
        ''/url?q=http://d.example/&sa=U'']"

definition sample_gui :: PagodoGUI where
  "sample_gui =
     \<lparr>gui_dorks = [''inurl:admin''], search_results = [], database_urls = [],
      db_urls_list = [], domain_input = ''example.com'', enable_proxy_check = False,
      proxy_text = [], max_results_spin = 50, min_delay_spin = 10, max_delay_spin = 5\<rparr>"

definition sample_gui5 :: PagodoGUI5 where
  "sample_gui5 =
     \<lparr>thread_running = False, dork_selector = ''dorks/all_google_dorks.txt'',
      dork_file_exists = True, domain_input5 = ''example.com'', max_results_spin5 = 100,
      proxies_input = [], clean_json_path = None, clean_urls_path = None,
      min_delay_spin5 = 10, max_delay_spin5 = 5, disable_ssl_checkbox = False,
      verbosity_spin = 4\<rparr>"

section \<open>The shape of a trace\<close>

lemma results_append: "results (xs @ ys) = results xs @ results ys"
  by (induction xs rule: results.induct) auto

lemma searches_append: "searches (xs @ ys) = searches xs @ searches ys"
  by (induction xs rule: searches.induct) auto

lemma sleeps_append: "sleeps (xs @ ys) = sleeps xs @ sleeps ys"
  by (induction xs rule: sleeps.induct) auto

text \<open>One pass of the loop, with the guard at its head and the handler at its foot.\<close>

lemma run_loop_Cons:
  "run_loop w t n p idx (dork # rest) =
     (if stop_called w idx \<or> \<not> running t then [Finished]
      else body w t n p idx dork
           @ (if delay_of w t idx < 0
              then [Error ''Search error: sleep length must be non-negative'']
              else run_loop w t n (if proxies t \<noteq> [] then p + 1 else p) (idx + 1) rest))"
  by (simp add: Let_def stop_def body_def urls_at_def query_of_def proxy_at_def delay_of_def)

declare run_loop.simps(2) [simp del]

lemma body_proxy_index:
  "proxies t = [] \<or> p' = p \<Longrightarrow> body w t n p' idx dork = body w t n p idx dork"
  by (auto simp: body_def urls_at_def proxy_at_def)

text \<open>
  A run in which the first \<open>m\<close> checks of the flag find it set, no delay is negative,
  and either the list ends after \<open>m\<close> dorks or \<open>stop()\<close> has been called before check
  \<open>m\<close>: the trace is \<open>m\<close> passes of the body and then \<open>finished\<close>.
\<close>

lemma run_loop_steps:
  assumes "running t" and "m \<le> length ds"
    and "\<forall>k<m. \<not> stop_called w (idx + k)"
    and "m < length ds \<longrightarrow> stop_called w (idx + m)"
    and "\<forall>k<m. 0 \<le> delay_of w t (idx + k)"
  shows "run_loop w t n p idx ds =
           concat (map (\<lambda>k. body w t n (p + k) (idx + k) (ds ! k)) [0..<m]) @ [Finished]"
  using assms
proof (induction ds arbitrary: m p idx)
  case Nil
  then show ?case by simp
next
  case (Cons dork rest)
  show ?case
  proof (cases m)
    case 0
    with Cons.prems show ?thesis by (simp add: run_loop_Cons)
  next
    case (Suc m')
    let ?p' = "if proxies t \<noteq> [] then p + 1 else p"
    from Cons.prems Suc have now: "\<not> stop_called w idx" "0 \<le> delay_of w t idx"
      by auto
    have a: "m' \<le> length rest" using Cons.prems Suc by simp
    have b: "\<forall>k<m'. \<not> stop_called w (idx + 1 + k)"
      using Cons.prems(3) Suc by auto
    have c: "m' < length rest \<longrightarrow> stop_called w (idx + 1 + m')"
      using Cons.prems(4) Suc by simp
    have d: "\<forall>k<m'. 0 \<le> delay_of w t (idx + 1 + k)"
      using Cons.prems(5) Suc by auto
    have ih: "run_loop w t n ?p' (idx + 1) rest =
        concat (map (\<lambda>k. body w t n (?p' + k) (idx + 1 + k) (rest ! k)) [0..<m']) @ [Finished]"
      using Cons.IH [OF Cons.prems(1) a b c d] .
    have shift: "body w t n (?p' + k) (idx + 1 + k) (rest ! k)
        = body w t n (p + Suc k) (idx + Suc k) ((dork # rest) ! Suc k)" for k
      using body_proxy_index [of t "?p' + k" "p + Suc k" w n "idx + Suc k" "rest ! k"]
      by auto
    have "run_loop w t n p idx (dork # rest) =
        body w t n p idx dork @ run_loop w t n ?p' (idx + 1) rest"
      using now Cons.prems(1) by (simp add: run_loop_Cons)
    also have "\<dots> = body w t n (p + 0) (idx + 0) ((dork # rest) ! 0)
        @ concat (map (\<lambda>k. body w t n (p + Suc k) (idx + Suc k) ((dork # rest) ! Suc k)) [0..<m'])
        @ [Finished]"
      unfolding ih shift by simp
    also have "\<dots> = concat (map (\<lambda>k. body w t n (p + k) (idx + k) ((dork # rest) ! k)) [0..<Suc m'])
        @ [Finished]"
      unfolding map_upt_Suc by simp
    finally show ?thesis using Suc by simp
  qed
qed

lemma run_steps:
  assumes "running t" and "m \<le> length (dorks t)"
    and "\<forall>k<m. \<not> stop_called w k"
    and "m < length (dorks t) \<longrightarrow> stop_called w m"
    and "\<forall>k<m. 0 \<le> delay_of w t k"
  shows "run w t =
           concat (map (\<lambda>k. body w t (length (dorks t)) k k (dorks t ! k)) [0..<m]) @ [Finished]"
  unfolding run_def
  using run_loop_steps [of t m "dorks t" w 0 "length (dorks t)" 0] assms by simp

lemma results_bodies:
  "results (concat (map (\<lambda>k. body w t n (f k) (g k) (h k)) ks)) =
     map (\<lambda>k. (h k, urls_at w t (f k) (g k) (h k), length (urls_at w t (f k) (g k) (h k)))) ks"
  by (induction ks) (simp_all add: results_append, simp add: body_def)

lemma searches_bodies:
  "searches (concat (map (\<lambda>k. body w t n (f k) (g k) (h k)) ks)) =
     map (\<lambda>k. (query_of t (h k), proxy_at t (f k))) ks"
  by (induction ks) (simp_all add: searches_append, simp add: body_def)

lemma sleeps_bodies:
  "sleeps (concat (map (\<lambda>k. body w t n (f k) (g k) (h k)) ks)) =
     map (\<lambda>k. delay_of w t (g k)) ks"
  by (induction ks) (simp_all add: sleeps_append, simp add: body_def)

lemma map_nth_upt_take: "m \<le> length xs \<Longrightarrow> map (\<lambda>k. xs ! k) [0..<m] = take m xs"
  by (simp add: list_eq_iff_nth_eq)

text \<open>What a run of \<open>m\<close> passes emits.\<close>

lemma run_steps_results:
  assumes "running t" and "m \<le> length (dorks t)"
    and "\<forall>k<m. \<not> stop_called w k"
    and "m < length (dorks t) \<longrightarrow> stop_called w m"
    and "\<forall>k<m. 0 \<le> delay_of w t k"
  shows "results (run w t) =
           map (\<lambda>k. (dorks t ! k, urls_at w t k k (dorks t ! k),
                      length (urls_at w t k k (dorks t ! k)))) [0..<m]"
    and "last (run w t) = Finished"
    and "Error msg \<notin> set (run w t)"
proof -
  note tr = run_steps [OF assms]
  show "results (run w t) =
           map (\<lambda>k. (dorks t ! k, urls_at w t k k (dorks t ! k),
                      length (urls_at w t k k (dorks t ! k)))) [0..<m]"
    unfolding tr results_append results_bodies by simp
  show "last (run w t) = Finished"
    unfolding tr by simp
  show "Error msg \<notin> set (run w t)"
    unfolding tr by (auto simp: body_def)
qed

lemma run_steps_dorks:
  assumes "running t" and "m \<le> length (dorks t)"
    and "\<forall>k<m. \<not> stop_called w k"
    and "m < length (dorks t) \<longrightarrow> stop_called w m"
    and "\<forall>k<m. 0 \<le> delay_of w t k"
  shows "map fst (results (run w t)) = take m (dorks t)"
  unfolding run_steps_results(1) [OF assms]
  using map_nth_upt_take [OF assms(2)] by (simp add: comp_def)

subsection \<open>Delays\<close>

lemma uniform_between:
  assumes "0 \<le> r" and "r \<le> 1"
  shows "real_of_int (min a b) \<le> uniform a b r" and "uniform a b r \<le> real_of_int (max a b)"
proof -
  show "real_of_int (min a b) \<le> uniform a b r"
  proof (cases "a \<le> b")
    case True
    then have "0 \<le> (real_of_int b - real_of_int a) * r" using assms by simp
    with True show ?thesis by (simp add: uniform_def)
  next
    case False
    then have "(real_of_int a - real_of_int b) * r \<le> (real_of_int a - real_of_int b) * 1"
      using assms by (intro mult_left_mono) auto
    with False show ?thesis by (simp add: uniform_def algebra_simps)
  qed
  show "uniform a b r \<le> real_of_int (max a b)"
  proof (cases "a \<le> b")
    case True
    then have "(real_of_int b - real_of_int a) * r \<le> (real_of_int b - real_of_int a) * 1"
      using assms by (intro mult_left_mono) auto
    with True show ?thesis by (simp add: uniform_def algebra_simps)
  next
    case False
    then have "0 \<le> (real_of_int a - real_of_int b) * r" using assms by simp
    with False show ?thesis by (simp add: uniform_def algebra_simps)
  qed
qed

text \<open>With bounds that are not negative, no delay is negative and \<open>sleep\<close> never raises.\<close>

lemma delay_of_nonneg:
  assumes "0 \<le> min_delay t" and "0 \<le> max_delay t" and "0 \<le> random w k" and "random w k \<le> 1"
  shows "0 \<le> delay_of w t k"
proof -
  have "0 \<le> real_of_int (min (min_delay t) (max_delay t))" using assms by simp
  also have "\<dots> \<le> delay_of w t k"
    unfolding delay_of_def using uniform_between(1) [OF assms(3,4)] .
  finally show ?thesis .
qed


subsection \<open>Requests\<close>

lemma searches_run_loop_nth:
  assumes "i < length (searches (run_loop w t n p idx ds))"
  shows "i < length ds \<and>
         searches (run_loop w t n p idx ds) ! i =
           (query_of t (ds ! i),
            if proxies t = [] then None
            else Some (proxies t ! ((p + i) mod length (proxies t))))"
  using assms
proof (induction ds arbitrary: p idx i)
  case Nil
  then show ?case by simp
next
  case (Cons dork rest)
  let ?p' = "if proxies t \<noteq> [] then p + 1 else p"
  let ?tail = "if delay_of w t idx < 0
      then [Error ''Search error: sleep length must be non-negative'']
      else run_loop w t n ?p' (idx + 1) rest"
  from Cons.prems have go: "\<not> (stop_called w idx \<or> \<not> running t)"
    by (auto simp: run_loop_Cons split: if_splits)
  then have tr: "searches (run_loop w t n p idx (dork # rest)) =
      (query_of t dork, proxy_at t p) # searches ?tail"
    by (simp add: run_loop_Cons searches_append body_def)
  show ?case
  proof (cases i)
    case 0
    then show ?thesis unfolding tr by (simp add: proxy_at_def)
  next
    case (Suc i')
    with Cons.prems have len: "i' < length (searches ?tail)"
      unfolding tr by simp
    then have cont: "?tail = run_loop w t n ?p' (idx + 1) rest"
      by (auto split: if_splits)
    from len cont have "i' < length (searches (run_loop w t n ?p' (idx + 1) rest))"
      by simp
    from Cons.IH [OF this] cont Suc show ?thesis
      unfolding tr by (auto simp: add.commute add.left_commute)
  qed
qed

section \<open>The claims about a run\<close>

text \<open>
  The hypotheses below say what the rest of the world does. That the flag is still set
  at check \<open>k\<close> is \<open>\<not> stop_called w k\<close> for every check so far; that no internal fault
  occurs is that no delay drawn is negative (the only exception the loop body can raise).
\<close>

text \<open>
  C1. For every query list of length N run by \<open>DorkSearchThread.run\<close> with no
  cancellation request and no failure, exactly N result events are emitted, one per
  query, in the order of the query list. (Transport failures need not be excluded: they
  give a result event too.)
\<close>

theorem C1_one_result_per_query_in_order:
  assumes "running t"
    and "\<forall>k<length (dorks t). \<not> stop_called w k"
    and "\<forall>k<length (dorks t). 0 \<le> delay_of w t k"
  shows "length (results (run w t)) = length (dorks t)
         \<and> map fst (results (run w t)) = dorks t"
proof -
  have dk: "map fst (results (run w t)) = take (length (dorks t)) (dorks t)"
    using run_steps_dorks [of t "length (dorks t)" w] assms by simp
  then have "map fst (results (run w t)) = dorks t" by simp
  moreover from this have "length (results (run w t)) = length (dorks t)"
    by (metis length_map)
  ultimately show ?thesis by simp
qed

theorem C1_witness:
  "length (results (run quiet_world five_dorks)) = 5
   \<and> map fst (results (run quiet_world five_dorks))
       = [''inurl:a'', ''inurl:b'', ''inurl:c'', ''inurl:d'', ''inurl:e'']"
proof -
  have r: "running five_dorks" by (simp add: five_dorks_def init_def)
  have s: "\<forall>k<length (dorks five_dorks). \<not> stop_called quiet_world k"
    by (simp add: quiet_world_def)
  have d: "\<forall>k<length (dorks five_dorks). 0 \<le> delay_of quiet_world five_dorks k"
    by (simp add: delay_of_def uniform_def quiet_world_def five_dorks_def init_def)
  show ?thesis
    using C1_one_result_per_query_in_order [OF r s d]
    by (simp add: five_dorks_def init_def)
qed

text \<open>
  C4. A transport failure (timeout, connection error, or a status outside 200--299) on
  query \<open>j\<close> is not fatal. In every run without internal fault that handles \<open>m\<close>
  queries (\<open>m\<close> is the whole list, or the point where a stop request is seen), for
  \<open>j < m\<close>: the result event of query \<open>j\<close> carries no URL and the count 0, the run goes
  on to the queries after \<open>j\<close> (there are \<open>m\<close> result events, for the first \<open>m\<close>
  queries in order), and the run ends with the \<open>finished\<close> signal and emits no
  \<open>error\<close> signal.
\<close>

theorem C4_transport_failure_not_fatal:
  assumes "running t" and "m \<le> length (dorks t)"
    and "\<forall>k<m. \<not> stop_called w k"
    and "m < length (dorks t) \<longrightarrow> stop_called w m"
    and "\<forall>k<m. 0 \<le> delay_of w t k"
    and "j < m" and "transport_failure (response w j)"
  shows "results (run w t) ! j = (dorks t ! j, [], 0)
         \<and> map fst (results (run w t)) = take m (dorks t)
         \<and> last (run w t) = Finished
         \<and> (\<forall>msg. Error msg \<notin> set (run w t))"
proof -
  note hyp = assms(1-5)
  have empty: "urls_at w t j j (dorks t ! j) = []"
    using assms(7)
    by (auto simp: urls_at_def google_search_def transport_failure_def
        split: fetch_outcome.splits)
  have "results (run w t) ! j =
      (dorks t ! j, urls_at w t j j (dorks t ! j), length (urls_at w t j j (dorks t ! j)))"
    unfolding run_steps_results(1) [OF hyp] using assms(6) by simp
  then have a: "results (run w t) ! j = (dorks t ! j, [], 0)"
    by (simp add: empty)
  have b: "map fst (results (run w t)) = take m (dorks t)"
    by (rule run_steps_dorks [OF hyp])
  have c: "last (run w t) = Finished"
    by (rule run_steps_results(2) [OF hyp])
  have d: "\<forall>msg. Error msg \<notin> set (run w t)"
    using run_steps_results(3) [OF hyp] by blast
  from a b c d show ?thesis by simp
qed

theorem C4_witness:
  "results (run quiet_world five_dorks) ! 1 = (''inurl:b'', [], 0)
   \<and> map fst (results (run quiet_world five_dorks))
       = [''inurl:a'', ''inurl:b'', ''inurl:c'', ''inurl:d'', ''inurl:e'']
   \<and> last (run quiet_world five_dorks) = Finished"
proof -
  have r: "running five_dorks" by (simp add: five_dorks_def init_def)
  have m: "5 \<le> length (dorks five_dorks)" by (simp add: five_dorks_def init_def)
  have s: "\<forall>k<5. \<not> stop_called quiet_world k"
    by (simp add: quiet_world_def)
  have e: "5 < length (dorks five_dorks) \<longrightarrow> stop_called quiet_world 5"
    by (simp add: five_dorks_def init_def)
  have d: "\<forall>k<5. 0 \<le> delay_of quiet_world five_dorks k"
    by (simp add: delay_of_def uniform_def quiet_world_def five_dorks_def init_def)
  have j: "(1::nat) < 5" by simp
  have f: "transport_failure (response quiet_world 1)"
    by (simp add: transport_failure_def quiet_world_def)
  show ?thesis
    using C4_transport_failure_not_fatal [OF r m s e d j f]
    by (simp add: five_dorks_def init_def)
qed

text \<open>
  C5, as the code has it. When \<open>stop()\<close> is called after query \<open>i\<close> has been handled and
  before the check that precedes query \<open>i + 1\<close>, and no internal fault occurs, exactly
  \<open>i + 1\<close> result events are emitted (for the first \<open>i + 1\<close> queries, in order), the run
  ends with the \<open>finished\<close> signal and no \<open>error\<close> signal is emitted. The \<open>finished\<close>
  signal carries no argument: it is the signal a completed run ends with, and nothing
  marks it as cancelled by the user.
\<close>

theorem C5_stop_after_query:
  assumes "running t" and "i < length (dorks t)"
    and "\<forall>k\<le>i. \<not> stop_called w k"
    and "stop_called w (i + 1)"
    and "\<forall>k\<le>i. 0 \<le> delay_of w t k"
  shows "length (results (run w t)) = i + 1
         \<and> map fst (results (run w t)) = take (i + 1) (dorks t)
         \<and> last (run w t) = Finished
         \<and> (\<forall>msg. Error msg \<notin> set (run w t))"
proof -
  have m: "i + 1 \<le> length (dorks t)" using assms(2) by simp
  have s: "\<forall>k<i + 1. \<not> stop_called w k" using assms(3) by simp
  have e: "i + 1 < length (dorks t) \<longrightarrow> stop_called w (i + 1)" using assms(4) by simp
  have d: "\<forall>k<i + 1. 0 \<le> delay_of w t k" using assms(5) by simp
  note hyp = assms(1) m s e d
  have b: "map fst (results (run w t)) = take (i + 1) (dorks t)"
    by (rule run_steps_dorks [OF hyp])
  then have "length (map fst (results (run w t))) = length (take (i + 1) (dorks t))"
    by simp
  then have a: "length (results (run w t)) = i + 1" using m by simp
  have c: "last (run w t) = Finished"
    by (rule run_steps_results(2) [OF hyp])
  have n: "\<forall>msg. Error msg \<notin> set (run w t)"
    using run_steps_results(3) [OF hyp] by blast
  from a b c n show ?thesis by simp
qed

theorem C5_witness:
  "length (results (run stop_world five_dorks)) = 2
   \<and> map fst (results (run stop_world five_dorks)) = [''inurl:a'', ''inurl:b'']
   \<and> last (run stop_world five_dorks) = Finished"
proof -
  have r: "running five_dorks" by (simp add: five_dorks_def init_def)
  have i: "1 < length (dorks five_dorks)" by (simp add: five_dorks_def init_def)
  have s: "\<forall>k\<le>1. \<not> stop_called stop_world k"
    by (simp add: stop_world_def quiet_world_def)
  have e: "stop_called stop_world (1 + 1)"
    by (simp add: stop_world_def quiet_world_def)
  have d: "\<forall>k\<le>1. 0 \<le> delay_of stop_world five_dorks k"
    by (simp add: delay_of_def uniform_def stop_world_def quiet_world_def five_dorks_def
        init_def)
  show ?thesis
    using C5_stop_after_query [OF r i s e d]
    by (simp add: five_dorks_def init_def)
qed

text \<open>
  The claim as written asks for a terminal event that is explicitly marked as cancelled
  by the user. The run stopped after its second query and the run that handles all five
  queries end with the same event.
\<close>

theorem C5_counterexample:
  "last (run stop_world five_dorks) = last (run quiet_world five_dorks)
   \<and> length (results (run stop_world five_dorks)) = 2
   \<and> length (results (run quiet_world five_dorks)) = 5"
proof -
  have r: "running five_dorks" by (simp add: five_dorks_def init_def)
  have n: "length (dorks five_dorks) = 5" by (simp add: five_dorks_def init_def)
  have dq: "\<forall>k<5. 0 \<le> delay_of quiet_world five_dorks k"
    by (simp add: delay_of_def uniform_def quiet_world_def five_dorks_def init_def)
  have ds: "\<forall>k<2. 0 \<le> delay_of stop_world five_dorks k"
    by (simp add: delay_of_def uniform_def stop_world_def quiet_world_def five_dorks_def
        init_def)
  have sq: "\<forall>k<5. \<not> stop_called quiet_world k" by (simp add: quiet_world_def)
  have ss: "\<forall>k<2. \<not> stop_called stop_world k"
    by (simp add: stop_world_def quiet_world_def)
  have eq: "5 < length (dorks five_dorks) \<longrightarrow> stop_called quiet_world 5"
    by (simp add: n)
  have es: "2 < length (dorks five_dorks) \<longrightarrow> stop_called stop_world 2"
    by (simp add: stop_world_def quiet_world_def)
  have mq: "5 \<le> length (dorks five_dorks)" by (simp add: n)
  have ms: "2 \<le> length (dorks five_dorks)" by (simp add: n)
  have lq: "last (run quiet_world five_dorks) = Finished"
    by (rule run_steps_results(2) [OF r mq sq eq dq])
  have ls: "last (run stop_world five_dorks) = Finished"
    by (rule run_steps_results(2) [OF r ms ss es ds])
  have "length (map fst (results (run quiet_world five_dorks)))
      = length (take 5 (dorks five_dorks))"
    by (simp only: run_steps_dorks [OF r mq sq eq dq])
  then have cq: "length (results (run quiet_world five_dorks)) = 5"
    by (simp add: n)
  have "length (map fst (results (run stop_world five_dorks)))
      = length (take 2 (dorks five_dorks))"
    by (simp only: run_steps_dorks [OF r ms ss es ds])
  then have cs: "length (results (run stop_world five_dorks)) = 2"
    by (simp add: n)
  from lq ls cq cs show ?thesis by simp
qed

lemma run_steps_sleeps:
  assumes "running t" and "m \<le> length (dorks t)"
    and "\<forall>k<m. \<not> stop_called w k"
    and "m < length (dorks t) \<longrightarrow> stop_called w m"
    and "\<forall>k<m. 0 \<le> delay_of w t k"
  shows "sleeps (run w t) = map (delay_of w t) [0..<m]"
  unfolding run_steps [OF assms] by (simp add: sleeps_append sleeps_bodies)

lemma run_steps_searches:
  assumes "running t" and "m \<le> length (dorks t)"
    and "\<forall>k<m. \<not> stop_called w k"
    and "m < length (dorks t) \<longrightarrow> stop_called w m"
    and "\<forall>k<m. 0 \<le> delay_of w t k"
  shows "searches (run w t) = map (\<lambda>k. (query_of t (dorks t ! k), proxy_at t k)) [0..<m]"
  unfolding run_steps [OF assms] by (simp add: searches_append searches_bodies)

lemma five_dorks_steps:
  assumes "random w = (\<lambda>k. 1 / 2)" and "\<forall>k<m. \<not> stop_called w k"
    and "m < 5 \<longrightarrow> stop_called w m" and "m \<le> 5"
    and "min_delay t = 2" and "max_delay t = 5" and "running t" and "length (dorks t) = 5"
  shows "running t \<and> m \<le> length (dorks t) \<and> (\<forall>k<m. \<not> stop_called w k)
         \<and> (m < length (dorks t) \<longrightarrow> stop_called w m) \<and> (\<forall>k<m. 0 \<le> delay_of w t k)"
  using assms by (simp add: delay_of_def uniform_def)

text \<open>Every pass that sends a request emits the result of its dork.\<close>

lemma results_searches_run_loop:
  "map fst (results (run_loop w t n p idx ds)) =
     take (length (searches (run_loop w t n p idx ds))) ds"
  by (induction ds arbitrary: p idx)
    (simp_all add: run_loop_Cons body_def results_append searches_append)

text \<open>
  C6. In every run, however it ends, the requests are those of the first queries of the
  list, one per query and in order (as many as there are results), and the request of
  the \<open>i\<close>-th query carries that query and the proxy \<open>proxies[i mod m]\<close> for a non-empty
  pool of size \<open>m\<close>, no proxy for an empty pool. The \<open>proxies\<close> argument that
  \<open>google_search\<close> then hands to \<open>requests.get\<close> is built from that proxy, and is \<open>None\<close>
  for every request when the pool is empty.
\<close>

theorem C6_proxy_round_robin:
  "searches (run w t) =
     map (\<lambda>i. (query_of t (dorks t ! i),
                if proxies t = [] then None
                else Some (proxies t ! (i mod length (proxies t)))))
       [0..<length (searches (run w t))]
   \<and> length (searches (run w t)) \<le> length (dorks t)
   \<and> map fst (results (run w t)) = take (length (searches (run w t))) (dorks t)
   \<and> map (\<lambda>s. proxies_dict (snd s)) (searches (run w t)) =
       map (\<lambda>i. if proxies t = [] then None
                 else proxies_dict (Some (proxies t ! (i mod length (proxies t)))))
         [0..<length (searches (run w t))]"
proof -
  let ?f = "\<lambda>i. (query_of t (dorks t ! i),
                if proxies t = [] then None
                else Some (proxies t ! (i mod length (proxies t))))"
  have nth: "i < length (dorks t) \<and> searches (run w t) ! i = ?f i"
    if "i < length (searches (run w t))" for i
    using searches_run_loop_nth [of i w t "length (dorks t)" 0 0 "dorks t"] that
    by (simp add: run_def)
  have len: "length (searches (run w t)) \<le> length (dorks t)"
  proof (rule ccontr)
    assume "\<not> length (searches (run w t)) \<le> length (dorks t)"
    then have "length (dorks t) < length (searches (run w t))" by simp
    from nth [OF this] show False by simp
  qed
  have eq: "searches (run w t) = map ?f [0..<length (searches (run w t))]"
    by (rule nth_equalityI) (simp_all add: nth)
  have res: "map fst (results (run w t)) = take (length (searches (run w t))) (dorks t)"
    unfolding run_def by (rule results_searches_run_loop)
  have "map (\<lambda>s. proxies_dict (snd s)) (searches (run w t)) =
      map (\<lambda>s. proxies_dict (snd s)) (map ?f [0..<length (searches (run w t))])"
    using eq by simp
  also have "\<dots> = map (\<lambda>i. if proxies t = [] then None
                 else proxies_dict (Some (proxies t ! (i mod length (proxies t)))))
         [0..<length (searches (run w t))]"
    by (simp add: proxies_dict_def)
  finally have pd: "map (\<lambda>s. proxies_dict (snd s)) (searches (run w t)) =
       map (\<lambda>i. if proxies t = [] then None
                 else proxies_dict (Some (proxies t ! (i mod length (proxies t)))))
         [0..<length (searches (run w t))]" .
  from eq len res pd show ?thesis by blast
qed

theorem C6_witness:
  "searches (run quiet_world five_dorks) =
     [(''inurl:a site:example.com'', Some ''proxy0''),
      (''inurl:b site:example.com'', Some ''proxy1''),
      (''inurl:c site:example.com'', Some ''proxy2''),
      (''inurl:d site:example.com'', Some ''proxy0''),
      (''inurl:e site:example.com'', Some ''proxy1'')]
   \<and> map (\<lambda>s. proxies_dict (snd s)) (searches (run quiet_world (five_dorks\<lparr>proxies := []\<rparr>)))
       = [None, None, None, None, None]"
proof -
  let ?e = "five_dorks\<lparr>proxies := []\<rparr>"
  have "running five_dorks \<and> 5 \<le> length (dorks five_dorks)
      \<and> (\<forall>k<5. \<not> stop_called quiet_world k)
      \<and> (5 < length (dorks five_dorks) \<longrightarrow> stop_called quiet_world 5)
      \<and> (\<forall>k<5. 0 \<le> delay_of quiet_world five_dorks k)"
    by (rule five_dorks_steps) (simp_all add: quiet_world_def five_dorks_def init_def)
  then have "searches (run quiet_world five_dorks) =
      map (\<lambda>k. (query_of five_dorks (dorks five_dorks ! k), proxy_at five_dorks k)) [0..<5]"
    using run_steps_searches [of five_dorks 5 quiet_world] by blast
  then have len: "length (searches (run quiet_world five_dorks)) = 5" by simp
  have "running ?e \<and> 5 \<le> length (dorks ?e)
      \<and> (\<forall>k<5. \<not> stop_called quiet_world k)
      \<and> (5 < length (dorks ?e) \<longrightarrow> stop_called quiet_world 5)
      \<and> (\<forall>k<5. 0 \<le> delay_of quiet_world ?e k)"
    by (rule five_dorks_steps) (simp_all add: quiet_world_def five_dorks_def init_def)
  then have "searches (run quiet_world ?e) =
      map (\<lambda>k. (query_of ?e (dorks ?e ! k), proxy_at ?e k)) [0..<5]"
    using run_steps_searches [of ?e 5 quiet_world] by blast
  then have len': "length (searches (run quiet_world ?e)) = 5" by simp
  have upt: "[0..<5] = [0, 1, 2, 3, 4::nat]" by (simp add: upt_rec)
  have p: "proxies five_dorks = [''proxy0'', ''proxy1'', ''proxy2'']"
    "dorks five_dorks = [''inurl:a'', ''inurl:b'', ''inurl:c'', ''inurl:d'', ''inurl:e'']"
    "domain five_dorks = ''example.com''"
    by (simp_all add: five_dorks_def init_def)
  have a: "searches (run quiet_world five_dorks) =
     [(''inurl:a site:example.com'', Some ''proxy0''),
      (''inurl:b site:example.com'', Some ''proxy1''),
      (''inurl:c site:example.com'', Some ''proxy2''),
      (''inurl:d site:example.com'', Some ''proxy0''),
      (''inurl:e site:example.com'', Some ''proxy1'')]"
    using C6_proxy_round_robin [of quiet_world five_dorks]
    by (simp add: len upt p query_of_def)
  have b: "map (\<lambda>s. proxies_dict (snd s)) (searches (run quiet_world ?e))
       = [None, None, None, None, None]"
    using C6_proxy_round_robin [of quiet_world ?e]
    by (simp add: len' upt proxies_dict_def)
  from a b show ?thesis by simp
qed




text \<open>
  C10. In a run that is not cancelled and meets no internal fault, every pass of the loop
  emits its progress, sends its request, emits its result and then sleeps for the delay
  drawn, the pass of the final query included. So the trace is N passes followed by
  \<open>finished\<close>: there are as many delays as queries, nothing but the progress signal
  precedes the first request, and the result of the final query, one more delay and
  \<open>finished\<close> are the last three events.
\<close>

theorem C10_delay_after_every_result:
  assumes "running t"
    and "\<forall>k<length (dorks t). \<not> stop_called w k"
    and "\<forall>k<length (dorks t). 0 \<le> delay_of w t k"
  shows "run w t =
           concat (map (\<lambda>k.
               [Progress (''Searching: '' @ dorks t ! k) (k + 1) (length (dorks t)),
                Search (query_of t (dorks t ! k)) (proxy_at t k),
                Result (dorks t ! k) (urls_at w t k k (dorks t ! k))
                  (length (urls_at w t k k (dorks t ! k))),
                Sleep (delay_of w t k)])
             [0..<length (dorks t)]) @ [Finished]
         \<and> sleeps (run w t) = map (delay_of w t) [0..<length (dorks t)]
         \<and> (dorks t \<noteq> [] \<longrightarrow>
              take 2 (run w t) =
                [Progress (''Searching: '' @ dorks t ! 0) 1 (length (dorks t)),
                 Search (query_of t (dorks t ! 0)) (proxy_at t 0)]
              \<and> (\<exists>pre urls. run w t =
                    pre @ [Result (last (dorks t)) urls (length urls),
                           Sleep (delay_of w t (length (dorks t) - 1)), Finished]))"
proof -
  let ?N = "length (dorks t)"
  let ?b = "\<lambda>k. body w t ?N k k (dorks t ! k)"
  have tr: "run w t = concat (map ?b [0..<?N]) @ [Finished]"
    using run_steps [of t ?N w] assms by simp
  have a: "run w t =
           concat (map (\<lambda>k.
               [Progress (''Searching: '' @ dorks t ! k) (k + 1) (length (dorks t)),
                Search (query_of t (dorks t ! k)) (proxy_at t k),
                Result (dorks t ! k) (urls_at w t k k (dorks t ! k))
                  (length (urls_at w t k k (dorks t ! k))),
                Sleep (delay_of w t k)])
             [0..<length (dorks t)]) @ [Finished]"
    using tr by (simp add: body_def)
  have b: "sleeps (run w t) = map (delay_of w t) [0..<?N]"
    using run_steps_sleeps [of t ?N w] assms by simp
  have c: "take 2 (run w t) =
                [Progress (''Searching: '' @ dorks t ! 0) 1 (length (dorks t)),
                 Search (query_of t (dorks t ! 0)) (proxy_at t 0)]
              \<and> (\<exists>pre urls. run w t =
                    pre @ [Result (last (dorks t)) urls (length urls),
                           Sleep (delay_of w t (length (dorks t) - 1)), Finished])"
    if ne: "dorks t \<noteq> []"
  proof
    from ne have "[0..<?N] = 0 # [1..<?N]" by (simp add: upt_rec)
    then have "run w t = ?b 0 @ concat (map ?b [1..<?N]) @ [Finished]"
      using tr by simp
    then show "take 2 (run w t) =
                [Progress (''Searching: '' @ dorks t ! 0) 1 (length (dorks t)),
                 Search (query_of t (dorks t ! 0)) (proxy_at t 0)]"
      by (simp add: body_def)
  next
    from ne obtain n where n: "?N = Suc n" by (cases "dorks t") auto
    then have "[0..<?N] = [0..<n] @ [n]" by simp
    then have "run w t = concat (map ?b [0..<n]) @ ?b n @ [Finished]"
      using tr by simp
    moreover have "dorks t ! n = last (dorks t)"
      using ne n by (simp add: last_conv_nth)
    ultimately have "run w t =
        (concat (map ?b [0..<n]) @
          [Progress (''Searching: '' @ dorks t ! n) (n + 1) ?N,
           Search (query_of t (dorks t ! n)) (proxy_at t n)])
        @ [Result (last (dorks t)) (urls_at w t n n (dorks t ! n))
             (length (urls_at w t n n (dorks t ! n))),
           Sleep (delay_of w t (?N - 1)), Finished]"
      using n by (simp add: body_def)
    then show "\<exists>pre urls. run w t =
                    pre @ [Result (last (dorks t)) urls (length urls),
                           Sleep (delay_of w t (length (dorks t) - 1)), Finished]"
      by blast
  qed
  from a b c show ?thesis by blast
qed

theorem C10_witness:
  "sleeps (run quiet_world five_dorks) = [7 / 2, 7 / 2, 7 / 2, 7 / 2, 7 / 2]
   \<and> take 2 (run quiet_world five_dorks) =
       [Progress ''Searching: inurl:a'' 1 5,
        Search ''inurl:a site:example.com'' (Some ''proxy0'')]"
proof -
  have r: "running five_dorks" by (simp add: five_dorks_def init_def)
  have s: "\<forall>k<length (dorks five_dorks). \<not> stop_called quiet_world k"
    by (simp add: quiet_world_def)
  have d: "\<forall>k<length (dorks five_dorks). 0 \<le> delay_of quiet_world five_dorks k"
    by (simp add: delay_of_def uniform_def quiet_world_def five_dorks_def init_def)
  have upt: "[0..<5] = [0, 1, 2, 3, 4::nat]" by (simp add: upt_rec)
  have dl: "delay_of quiet_world five_dorks k = 7 / 2" for k
    by (simp add: delay_of_def uniform_def quiet_world_def five_dorks_def init_def)
  have n: "length (dorks five_dorks) = 5" "dorks five_dorks \<noteq> []"
    "dorks five_dorks ! 0 = ''inurl:a''"
    by (simp_all add: five_dorks_def init_def)
  have q: "query_of five_dorks ''inurl:a'' = ''inurl:a site:example.com''"
    "proxy_at five_dorks 0 = Some ''proxy0''"
    by (simp_all add: query_of_def proxy_at_def five_dorks_def init_def)
  from C10_delay_after_every_result [OF r s d]
  have "sleeps (run quiet_world five_dorks)
          = map (delay_of quiet_world five_dorks) [0..<length (dorks five_dorks)]"
    and "take 2 (run quiet_world five_dorks) =
                [Progress (''Searching: '' @ dorks five_dorks ! 0) 1 (length (dorks five_dorks)),
                 Search (query_of five_dorks (dorks five_dorks ! 0)) (proxy_at five_dorks 0)]"
    using n(2) by blast+
  then show ?thesis by (simp add: n upt dl q)
qed

section \<open>The result extractor\<close>

lemma py_split_from_nonempty: "py_split_from sep piece s \<noteq> []"
  by (induction sep piece s rule: py_split_from.induct) auto

text \<open>After the substring test the split has a second piece.\<close>

lemma py_split_from_second:
  "sep \<noteq> [] \<Longrightarrow> py_in sep s \<Longrightarrow> 2 \<le> length (py_split_from sep piece s)"
proof (induction s arbitrary: piece)
  case Nil
  then show ?case by simp
next
  case (Cons c cs)
  show ?case
  proof (cases "prefix sep (c # cs)")
    case True
    have "1 \<le> length (py_split_from sep [] (drop (length sep) (c # cs)))"
      using py_split_from_nonempty [of sep "[]" "drop (length sep) (c # cs)"]
      by (cases "py_split_from sep [] (drop (length sep) (c # cs))") auto
    with True Cons.prems(1) show ?thesis by simp
  next
    case False
    with Cons.prems have "py_in sep cs" by simp
    from Cons.IH [OF Cons.prems(1) this] False show ?thesis by simp
  qed
qed

lemma py_split_second:
  "sep \<noteq> [] \<Longrightarrow> py_in sep s \<Longrightarrow> \<exists>a b rest. py_split sep s = a # b # rest"
proof -
  assume "sep \<noteq> []" and "py_in sep s"
  then have "2 \<le> length (py_split sep s)"
    unfolding py_split_def by (rule py_split_from_second)
  then show ?thesis
    by (cases "py_split sep s"; cases "tl (py_split sep s)") auto
qed

lemma collect_urls_length:
  "int (length (collect_urls mr urls links)) \<le> max (int (length urls) + 1) mr"
  by (induction mr urls links rule: collect_urls.induct)
    (auto simp: Let_def split: list.splits)

lemma collect_urls_http:
  "list_all (\<lambda>u. startswith u ''http'') urls
   \<Longrightarrow> list_all (\<lambda>u. startswith u ''http'') (collect_urls mr urls links)"
proof (induction links arbitrary: urls)
  case Nil
  then show ?case by simp
next
  case (Cons href links)
  show ?case
    using Cons.prems by (auto simp: Let_def Cons.IH split: list.splits)
qed

text \<open>
  C7, as the code has it. For every response and every bound \<open>max_results\<close>,
  \<open>google_search\<close> returns at most \<open>max_results\<close> URLs when \<open>max_results\<close> is at least 1
  (and at most one URL otherwise, the bound being tested after the append), and every
  URL returned begins with the four characters \<open>http\<close>.
\<close>

theorem C7_at_most_max_results_http_prefix:
  "int (length (google_search query proxy mr outcome)) \<le> max 1 mr
   \<and> (\<forall>u \<in> set (google_search query proxy mr outcome). startswith u ''http'')"
proof -
  have len: "int (length (collect_urls mr [] links)) \<le> max 1 mr" for links
    using collect_urls_length [of mr "[]" links] by simp
  have "list_all (\<lambda>u. startswith u ''http'') (collect_urls mr [] links)" for links
    by (rule collect_urls_http) simp
  then have http: "\<forall>u \<in> set (collect_urls mr [] links). startswith u ''http''" for links
    by (simp add: list_all_iff)
  show ?thesis
  proof (cases outcome)
    case (Response status_code links)
    then show ?thesis using len [of links] http [of links] by (simp add: google_search_def)
  qed (simp_all add: google_search_def)
qed

theorem C7_witness:
  "google_search ''q'' None 2 sample_page = [''http://a.example/x?id=1'', ''https://c.example/'']
   \<and> length (google_search ''q'' None 2 sample_page) \<le> 2
   \<and> list_all (\<lambda>u. startswith u ''http'') (google_search ''q'' None 2 sample_page)"
proof -
  have v: "google_search ''q'' None 2 sample_page
      = [''http://a.example/x?id=1'', ''https://c.example/'']"
    by code_simp
  show ?thesis
    using C7_at_most_max_results_http_prefix [of "''q''" None 2 sample_page]
    by (simp add: v list_all_iff)
qed

text \<open>
  The claim as written asks for absolute http or https URLs. The test of the code is
  \<open>url.startswith("http")\<close>, which a target that is no URL at all passes.
\<close>

theorem C7_counterexample:
  "google_search ''q'' None 5 (Response 200 [''/url?q=httpd.conf&sa=U'']) = [''httpd.conf'']
   \<and> \<not> absolute_http_url ''httpd.conf''"
  by code_simp

section \<open>The parameters of a URL\<close>

















section \<open>The list of database URLs\<close>








section \<open>Starting a search\<close>

text \<open>
  C3. In \<open>pagodo_gui_pyqt6.py\<close> an empty dork list is refused with a warning and no thread
  is made, but a minimum delay above the maximum delay is not: \<open>start_search\<close> compares
  the two spin boxes nowhere and \<open>DorkSearchThread.__init__\<close> checks nothing, so with 10
  and 5 (both within the ranges of the boxes) the thread is started, sends its request
  and sleeps. The other front end, \<open>pagodo_gui.py\<close>, refuses the same pair of delays with
  the warning \<open>Invalid delays\<close>.
\<close>

theorem C3_unordered_delays_start_a_run:
  "spin_ranges sample_gui
   \<and> min_delay_spin sample_gui > max_delay_spin sample_gui
   \<and> snd (start_search sample_gui) = Started (init [''inurl:admin''] ''example.com'' [] 50 10 5)
   \<and> run quiet_world (init [''inurl:admin''] ''example.com'' [] 50 10 5) =
       [Progress ''Searching: inurl:admin'' 1 1,
        Search ''inurl:admin site:example.com'' None,
        Result ''inurl:admin'' [''http://example.com/view.php?id=5''] 1,
        Sleep (15 / 2),
        Finished]
   \<and> snd (start_search (sample_gui\<lparr>gui_dorks := []\<rparr>))
       = Warned ''No Dorks'' ''Please fetch or load dorks first!''
   \<and> start_search5 sample_gui5
       = Warning ''Invalid delays''
           ''Minimum delay must be less than or equal to the maximum delay.''"
proof -
  let ?t = "init [''inurl:admin''] ''example.com'' [] 50 10 5"
  have a: "spin_ranges sample_gui" "min_delay_spin sample_gui > max_delay_spin sample_gui"
    by (simp_all add: spin_ranges_def sample_gui_def)
  have "py_strip ''example.com'' = ''example.com''" by code_simp
  then have b: "snd (start_search sample_gui) = Started ?t"
    by (simp add: start_search_def sample_gui_def Let_def)
  have u: "google_search ''inurl:admin site:example.com'' None 50
      (Response 200 [''/url?q=http://example.com/view.php%3Fid%3D5&sa=U''])
      = [''http://example.com/view.php?id=5'']"
    by code_simp
  have "run quiet_world ?t =
      concat (map (\<lambda>k. body quiet_world ?t (length (dorks ?t)) k k (dorks ?t ! k)) [0..<1])
      @ [Finished]"
    by (rule run_steps)
      (simp_all add: quiet_world_def init_def delay_of_def uniform_def)
  then have c: "run quiet_world ?t =
       [Progress ''Searching: inurl:admin'' 1 1,
        Search ''inurl:admin site:example.com'' None,
        Result ''inurl:admin'' [''http://example.com/view.php?id=5''] 1,
        Sleep (15 / 2),
        Finished]"
    using u
    by (simp add: body_def urls_at_def query_of_def proxy_at_def delay_of_def uniform_def
        quiet_world_def init_def)
  have d: "snd (start_search (sample_gui\<lparr>gui_dorks := []\<rparr>))
       = Warned ''No Dorks'' ''Please fetch or load dorks first!''"
    by (simp add: start_search_def)
  have e: "start_search5 sample_gui5
       = Warning ''Invalid delays''
           ''Minimum delay must be less than or equal to the maximum delay.''"
    by (simp add: start_search5_def sample_gui5_def)
  from a b c d e show ?thesis by simp
qed

end
